theory Spec2Isabelle
  imports Main "HOL-Library.Word" "HOL-Library.Signed_Division"
begin

section \<open>Machine model\<close>

text \<open>
  The program is C. A byte (\<open>unsigned char\<close>) is an 8-bit word. Values of type
  \<open>int\<close> and \<open>long long\<close> are mathematical integers, and every arithmetic
  operation whose result may leave the type's range is checked: signed overflow,
  division by zero and a read or write outside an array are undefined behaviour in C and
  are results of their own here (\<open>Inl\<close> of a \<open>fault\<close>). A function that contains a
  loop which may spin forever returns an \<open>option\<close> on top, \<open>None\<close> meaning that it
  does not return.
\<close>

type_synonym byte = "8 word"

datatype fault = OutOfBounds | Overflow | DivByZero | BadShift | AssertFailed

type_synonym 'a res = "fault + 'a"

text \<open>Range checks for \<open>int\<close> (32 bits) and \<open>long long\<close> (64 bits, asserted by \<open>main\<close>).\<close>

definition c32 :: "int \<Rightarrow> int res" where
  "c32 x = (if - (2 ^ 31) \<le> x \<and> x < 2 ^ 31 then Inr x else Inl Overflow)"

definition ll :: "int \<Rightarrow> int res" where
  "ll x = (if - (2 ^ 63) \<le> x \<and> x < 2 ^ 63 then Inr x else Inl Overflow)"

text \<open>
  The operator \<open>%\<close> on \<open>long long\<close>: the remainder of the division that truncates
  towards zero (\<open>smod\<close>); a zero divisor traps, and \<open>LLONG_MIN % -1\<close> overflows.
\<close>

definition c_rem :: "int \<Rightarrow> int \<Rightarrow> int res" where
  "c_rem a b =
     (if b = 0 then Inl DivByZero
      else if a = - (2 ^ 63) \<and> b = - 1 then Inl Overflow
      else Inr (a smod b))"

text \<open>The operator \<open>/\<close> on \<open>int\<close>: truncating division (\<open>sdiv\<close>).\<close>

definition c_div32 :: "int \<Rightarrow> int \<Rightarrow> int res" where
  "c_div32 a b =
     (if b = 0 then Inl DivByZero
      else if a = - (2 ^ 31) \<and> b = - 1 then Inl Overflow
      else Inr (a sdiv b))"

text \<open>
  An array is the list of its bytes; \<open>rd\<close> is \<open>a[i]\<close> and \<open>wr\<close> is \<open>a[i] = v\<close>.
  A pointer \<open>a + i\<close> into an array is the list from index \<open>i\<close> on; forming it outside
  the array is a fault.
\<close>

definition rd :: "byte list \<Rightarrow> int \<Rightarrow> byte res" where
  "rd a i = (if 0 \<le> i \<and> i < int (length a) then Inr (a ! nat i) else Inl OutOfBounds)"

definition wr :: "byte list \<Rightarrow> int \<Rightarrow> byte \<Rightarrow> (byte list) res" where
  "wr a i v = (if 0 \<le> i \<and> i < int (length a) then Inr (a[nat i := v]) else Inl OutOfBounds)"

definition ptr_add :: "byte list \<Rightarrow> int \<Rightarrow> (byte list) res" where
  "ptr_add a i = (if 0 \<le> i \<and> i \<le> int (length a) then Inr (drop (nat i) a) else Inl OutOfBounds)"

text \<open>The bytes of a string literal.\<close>

definition bytes_of :: "string \<Rightarrow> byte list" where
  "bytes_of s = map of_char s"

section \<open>rkmatch.c: modular arithmetic\<close>

text \<open>
  \<open>BIG_PRIME\<close> is a global variable; option \<open>-q\<close> overwrites it. Every function that
  reads it takes its current value as the first argument \<open>q\<close>; \<open>BIG_PRIME\<close> below is
  the initial value.
\<close>

definition BIG_PRIME :: int where
  "BIG_PRIME = 5003943032159437"

text \<open>\<^verbatim>\<open>return ((a+b)>BIG_PRIME?(a+b-BIG_PRIME):(a+b));\<close>\<close>

definition madd :: "int \<Rightarrow> int \<Rightarrow> int \<Rightarrow> int res" where
  "madd q a b =
     (case ll (a + b) of
        Inl e \<Rightarrow> Inl e
      | Inr s \<Rightarrow> if s > q then ll (s - q) else Inr s)"

text \<open>\<^verbatim>\<open>return ((a>b)?(a-b):(a+BIG_PRIME-b));\<close>\<close>

definition mdel :: "int \<Rightarrow> int \<Rightarrow> int \<Rightarrow> int res" where
  "mdel q a b =
     (if a > b then ll (a - b)
      else (case ll (a + q) of
              Inl e \<Rightarrow> Inl e
            | Inr s \<Rightarrow> ll (s - b)))"

text \<open>\<^verbatim>\<open>return ((a*b) % BIG_PRIME);\<close>\<close>

definition mmul :: "int \<Rightarrow> int \<Rightarrow> int \<Rightarrow> int res" where
  "mmul q a b =
     (case ll (a * b) of
        Inl e \<Rightarrow> Inl e
      | Inr p \<Rightarrow> c_rem p q)"

section \<open>rkmatch.c: the rolling hash of \<open>rabin_karp_match\<close>\<close>

definition base :: int where
  "base = 256"

text \<open>
  The loop \<^verbatim>\<open>for (i = 0; i < k - 1; i++) base_exp = mmul(base, base_exp);\<close>
  from the state \<open>(i, base_exp)\<close>; \<open>km1\<close> is the value of \<open>k - 1\<close>.
\<close>

function base_exp_loop :: "int \<Rightarrow> int \<Rightarrow> int \<Rightarrow> int \<Rightarrow> int res" where
  "base_exp_loop q km1 i base_exp =
     (if i < km1 then
        (case mmul q base base_exp of
           Inl e \<Rightarrow> Inl e
         | Inr b \<Rightarrow> base_exp_loop q km1 (i + 1) b)
      else Inr base_exp)"
  by pat_completeness auto
termination
  by (relation "measure (\<lambda>(q, km1, i, b). nat (km1 - i))") auto

text \<open>
  The loop that creates the initial hashes, for one of the two arrays:
  \<^verbatim>\<open>for (i = 0; i < k; i++) h = madd(mmul(base, h), s[i]);\<close>
  from the state \<open>(i, h)\<close>. The source runs it for \<open>ps\<close> and \<open>ts\<close> in one loop; the two
  hashes do not depend on each other.
\<close>

function hash_loop :: "int \<Rightarrow> byte list \<Rightarrow> int \<Rightarrow> int \<Rightarrow> int \<Rightarrow> int res" where
  "hash_loop q s k i h =
     (if i < k then
        (case mmul q base h of
           Inl e \<Rightarrow> Inl e
         | Inr m \<Rightarrow>
             (case rd s i of
                Inl e \<Rightarrow> Inl e
              | Inr c \<Rightarrow>
                  (case madd q m (uint c) of
                     Inl e \<Rightarrow> Inl e
                   | Inr h' \<Rightarrow> hash_loop q s k (i + 1) h')))
      else Inr h)"
  by pat_completeness auto
termination
  by (relation "measure (\<lambda>(q, s, k, i, h). nat (k - i))") auto

text \<open>The hash of the first \<open>k\<close> bytes of \<open>s\<close>, computed from scratch.\<close>

definition hash_window :: "int \<Rightarrow> byte list \<Rightarrow> int \<Rightarrow> int res" where
  "hash_window q s k = hash_loop q s k 0 0"

text \<open>
  The rolling update of the \<open>else\<close> branch in the scanning loop, in its two statements.
  \<open>roll_remove\<close> is \<^verbatim>\<open>ts_hash = mmul(base, mdel(ts_hash, mmul(ts[i], base_exp)));\<close>
  for the outgoing byte \<open>x = ts[i]\<close>.
\<close>

definition roll_remove :: "int \<Rightarrow> int \<Rightarrow> int \<Rightarrow> byte \<Rightarrow> int res" where
  "roll_remove q base_exp h x =
     (case mmul q (uint x) base_exp of
        Inl e \<Rightarrow> Inl e
      | Inr t \<Rightarrow>
          (case mdel q h t of
             Inl e \<Rightarrow> Inl e
           | Inr d \<Rightarrow> mmul q base d))"

text \<open>\<^verbatim>\<open>while (ts_hash < 0) ts_hash = ts_hash + BIG_PRIME;\<close>\<close>

partial_function (option) keep_positive :: "int \<Rightarrow> int \<Rightarrow> (int res) option" where
  "keep_positive q h =
     (if h < 0 then
        (if - (2 ^ 63) \<le> h + q \<and> h + q < 2 ^ 63 then keep_positive q (h + q)
         else Some (Inl Overflow))
      else Some (Inr h))"

text \<open>
  \<open>roll_add\<close> is \<^verbatim>\<open>ts_hash = madd(ts_hash, ts[i + k]);\<close> for the incoming byte
  \<open>y = ts[i + k]\<close>, followed by the \<open>while\<close> loop.
\<close>

definition roll_add :: "int \<Rightarrow> int \<Rightarrow> byte \<Rightarrow> (int res) option" where
  "roll_add q h y =
     (case madd q h (uint y) of
        Inl e \<Rightarrow> Some (Inl e)
      | Inr s \<Rightarrow> keep_positive q s)"

definition roll :: "int \<Rightarrow> int \<Rightarrow> int \<Rightarrow> byte \<Rightarrow> byte \<Rightarrow> (int res) option" where
  "roll q base_exp h x y =
     (case roll_remove q base_exp h x of
        Inl e \<Rightarrow> Some (Inl e)
      | Inr h1 \<Rightarrow> roll_add q h1 y)"

section \<open>rkmatch.c: \<open>rabin_karp_match\<close>\<close>

text \<open>What the program writes to standard output, one item for each \<open>printf\<close>.\<close>

datatype out =
    PsHash int      \<comment> \<open>\<^verbatim>\<open>printf("%llu\n", ps_hash)\<close>\<close>
  | TsHash int      \<comment> \<open>\<^verbatim>\<open>printf("%llu ", ts_hash)\<close>\<close>
  | Newline         \<comment> \<open>\<^verbatim>\<open>printf("\n")\<close>\<close>
  | ExactMatch      \<comment> \<open>\<^verbatim>\<open>printf("Exact match\n")\<close>\<close>
  | NotExactMatch   \<comment> \<open>\<^verbatim>\<open>printf("Not an exact match\n")\<close>\<close>
  | Stats int int   \<comment> \<open>the line \<^verbatim>\<open>"%d chunks matched (out of %d), percentage: %.2f\n"\<close>,
                        without the percentage (a floating-point quotient)\<close>

text \<open>\<open>%llu\<close> prints a \<open>long long\<close> as the unsigned value with the same bits.\<close>

definition llu :: "int \<Rightarrow> int" where
  "llu h = h mod 2 ^ 64"

definition PRINT_RK_HASH :: int where
  "PRINT_RK_HASH = 5"

text \<open>
  The verification loop
  \<^verbatim>\<open>for (j = 0; j < k; j++) { if (ts[i + j] != ps[j]) break; }\<close>
  from \<open>j\<close>; the result is the value of \<open>j\<close> after the loop.
\<close>

function verify_loop :: "byte list \<Rightarrow> int \<Rightarrow> byte list \<Rightarrow> int \<Rightarrow> int \<Rightarrow> int res" where
  "verify_loop ps k ts i j =
     (if j < k then
        (case c32 (i + j) of
           Inl e \<Rightarrow> Inl e
         | Inr ij \<Rightarrow>
             (case rd ts ij of
                Inl e \<Rightarrow> Inl e
              | Inr a \<Rightarrow>
                  (case rd ps j of
                     Inl e \<Rightarrow> Inl e
                   | Inr b \<Rightarrow> if a \<noteq> b then Inr j else verify_loop ps k ts i (j + 1))))
      else Inr j)"
  by pat_completeness auto
termination
  by (relation "measure (\<lambda>(ps, k, ts, i, j). nat (k - j))") auto

text \<open>The debug output at the head of the scanning loop's body: the new \<open>printed\<close> and output.\<close>

definition print_hash :: "int \<Rightarrow> int \<Rightarrow> out list \<Rightarrow> int \<times> out list" where
  "print_hash printed ts_hash os =
     (if printed < PRINT_RK_HASH then (printed + 1, os @ [TsHash (llu ts_hash)])
      else if printed = PRINT_RK_HASH then (printed + 1, os @ [Newline])
      else (printed, os))"

text \<open>
  The scanning loop \<^verbatim>\<open>for (i=printed=0; i < n - k; i++) { ... }\<close> from the state
  \<open>(i, printed, ts_hash, response)\<close> and the output so far; \<open>nk\<close> is the value of
  \<open>n - k\<close>. The hash is rolled only in the \<open>else\<close> branch, that is when the two hashes
  differ.
\<close>

function scan_loop ::
  "int \<Rightarrow> byte list \<Rightarrow> int \<Rightarrow> byte list \<Rightarrow> int \<Rightarrow> int \<Rightarrow> int \<Rightarrow>
   int \<Rightarrow> int \<Rightarrow> int \<Rightarrow> int \<Rightarrow> out list \<Rightarrow> ((int \<times> out list) res) option" where
  "scan_loop q ps k ts nk base_exp ps_hash i printed ts_hash response os =
     (if i < nk then
        (case print_hash printed ts_hash os of
           (printed', os') \<Rightarrow>
             if ts_hash = ps_hash then
               (case verify_loop ps k ts i 0 of
                  Inl e \<Rightarrow> Some (Inl e)
                | Inr j \<Rightarrow>
                    scan_loop q ps k ts nk base_exp ps_hash (i + 1) printed' ts_hash
                      (if j = k then 1 else response) os')
             else
               (case rd ts i of
                  Inl e \<Rightarrow> Some (Inl e)
                | Inr x \<Rightarrow>
                    (case roll_remove q base_exp ts_hash x of
                       Inl e \<Rightarrow> Some (Inl e)
                     | Inr h1 \<Rightarrow>
                         (case c32 (i + k) of
                            Inl e \<Rightarrow> Some (Inl e)
                          | Inr ik \<Rightarrow>
                              (case rd ts ik of
                                 Inl e \<Rightarrow> Some (Inl e)
                               | Inr y \<Rightarrow>
                                   (case roll_add q h1 y of
                                      None \<Rightarrow> None
                                    | Some (Inl e) \<Rightarrow> Some (Inl e)
                                    | Some (Inr h2) \<Rightarrow>
                                        scan_loop q ps k ts nk base_exp ps_hash (i + 1)
                                          printed' h2 response os'))))))
      else Some (Inr (response, os)))"
  by pat_completeness auto
termination
  by (relation "measure (\<lambda>(q, ps, k, ts, nk, be, ph, i, pr, th, r, os). nat (nk - i))") auto

text \<open>
  \<open>rabin_karp_match(ps, k, ts, n)\<close>: the return value and the output. \<open>ps\<close> and \<open>ts\<close>
  are the arrays the two pointers point into.
\<close>

definition rabin_karp_match ::
  "int \<Rightarrow> byte list \<Rightarrow> int \<Rightarrow> byte list \<Rightarrow> int \<Rightarrow> ((int \<times> out list) res) option" where
  "rabin_karp_match q ps k ts n =
     (case c32 (k - 1) of
        Inl e \<Rightarrow> Some (Inl e)
      | Inr km1 \<Rightarrow>
          (case base_exp_loop q km1 0 1 of
             Inl e \<Rightarrow> Some (Inl e)
           | Inr base_exp \<Rightarrow>
               (case hash_window q ps k of
                  Inl e \<Rightarrow> Some (Inl e)
                | Inr ps_hash \<Rightarrow>
                    (case hash_window q ts k of
                       Inl e \<Rightarrow> Some (Inl e)
                     | Inr ts_hash \<Rightarrow>
                         (case c32 (n - k) of
                            Inl e \<Rightarrow> Some (Inl e)
                          | Inr nk \<Rightarrow>
                              scan_loop q ps k ts nk base_exp ps_hash 0 0 ts_hash 0
                                [PsHash (llu ps_hash)])))))"

section \<open>rkmatch.c: \<open>simple_substr_match\<close>, \<open>exact_match\<close>, \<open>normalize\<close>\<close>

text \<open>
  The inner loop of \<open>simple_substr_match\<close> from \<open>j\<close>:
  \<^verbatim>\<open>for (j=0; j < k; j++) { if (ts[i+j] == ps[j]) { if ((j+1) == k) return 1; } else break; }\<close>
  The result is \<open>True\<close> when the function returns 1 from inside the loop.
\<close>

function simple_inner :: "byte list \<Rightarrow> int \<Rightarrow> byte list \<Rightarrow> int \<Rightarrow> int \<Rightarrow> bool res" where
  "simple_inner ps k ts i j =
     (if j < k then
        (case c32 (i + j) of
           Inl e \<Rightarrow> Inl e
         | Inr ij \<Rightarrow>
             (case rd ts ij of
                Inl e \<Rightarrow> Inl e
              | Inr a \<Rightarrow>
                  (case rd ps j of
                     Inl e \<Rightarrow> Inl e
                   | Inr b \<Rightarrow>
                       if a = b then
                         (if j + 1 = k then Inr True else simple_inner ps k ts i (j + 1))
                       else Inr False)))
      else Inr False)"
  by pat_completeness auto
termination
  by (relation "measure (\<lambda>(ps, k, ts, i, j). nat (k - j))") auto

text \<open>The outer loop \<^verbatim>\<open>for (i=0; i < n; i++)\<close> from \<open>i\<close>, and \<^verbatim>\<open>return 0;\<close> after it.\<close>

function simple_outer :: "byte list \<Rightarrow> int \<Rightarrow> byte list \<Rightarrow> int \<Rightarrow> int \<Rightarrow> int res" where
  "simple_outer ps k ts n i =
     (if i < n then
        (case simple_inner ps k ts i 0 of
           Inl e \<Rightarrow> Inl e
         | Inr found \<Rightarrow> if found then Inr 1 else simple_outer ps k ts n (i + 1))
      else Inr 0)"
  by pat_completeness auto
termination
  by (relation "measure (\<lambda>(ps, k, ts, n, i). nat (n - i))") auto

definition simple_substr_match :: "byte list \<Rightarrow> int \<Rightarrow> byte list \<Rightarrow> int \<Rightarrow> int res" where
  "simple_substr_match ps k ts n = simple_outer ps k ts n 0"

text \<open>
  The loop of \<open>exact_match\<close> from \<open>i\<close>:
  \<^verbatim>\<open>for (i=0; qs[i]; i++) { if (qs[i] != ts[i]) return 0; }\<close> and \<^verbatim>\<open>return 1;\<close>
  after it. The loop ends at the first zero byte of \<open>qs\<close>, not at \<open>m\<close>.
\<close>

function exact_loop :: "byte list \<Rightarrow> byte list \<Rightarrow> int \<Rightarrow> int res" where
  "exact_loop qs ts i =
     (case rd qs i of
        Inl e \<Rightarrow> Inl e
      | Inr c \<Rightarrow>
          if c \<noteq> 0 then
            (case rd ts i of
               Inl e \<Rightarrow> Inl e
             | Inr d \<Rightarrow>
                 if c \<noteq> d then Inr 0
                 else (case c32 (i + 1) of
                         Inl e \<Rightarrow> Inl e
                       | Inr i' \<Rightarrow> exact_loop qs ts i'))
          else Inr 1)"
  by pat_completeness auto
termination
  by (relation "measure (\<lambda>(qs, ts, i). nat (int (length qs) - i))")
     (auto simp: rd_def c32_def split: if_splits)

definition exact_match :: "byte list \<Rightarrow> int \<Rightarrow> byte list \<Rightarrow> int \<Rightarrow> int res" where
  "exact_match qs m ts n = (if m \<noteq> n then Inr 0 else exact_loop qs ts 0)"

text \<open>
  The character classes of \<open>ctype.h\<close> in the "C" locale, which is in force since the
  program never calls \<open>setlocale\<close>: upper-case letters are \<open>A\<close> to \<open>Z\<close>; white space is
  the space and the five controls \<open>\t \n \v \f \r\<close> (9 to 13).
\<close>

definition isupper :: "byte \<Rightarrow> bool" where
  "isupper c = (65 \<le> c \<and> c \<le> 90)"

definition isspace :: "byte \<Rightarrow> bool" where
  "isspace c = (c = 32 \<or> (9 \<le> c \<and> c \<le> 13))"

definition tolower :: "byte \<Rightarrow> byte" where
  "tolower c = (if isupper c then c + 32 else c)"

text \<open>
  The loop of \<open>normalize\<close> from the state \<open>(i, j)\<close>; the array \<open>buf\<close> is rewritten in
  place, so that \<open>buf[i-1]\<close> is read from the array as it is at that moment.
\<close>

function normalize_loop :: "byte list \<Rightarrow> int \<Rightarrow> int \<Rightarrow> int \<Rightarrow> (byte list \<times> int) res" where
  "normalize_loop buf len i j =
     (if i < len then
        (case rd buf i of
           Inl e \<Rightarrow> Inl e
         | Inr c \<Rightarrow>
             if isupper c then
               (case wr buf j (tolower c) of
                  Inl e \<Rightarrow> Inl e
                | Inr buf' \<Rightarrow> normalize_loop buf' len (i + 1) (j + 1))
             else if isspace c then
               (if i > 0 \<and> i < len - 1 then
                  (case rd buf (i - 1) of
                     Inl e \<Rightarrow> Inl e
                   | Inr p \<Rightarrow>
                       if \<not> isspace p then
                         (case wr buf j 32 of
                            Inl e \<Rightarrow> Inl e
                          | Inr buf' \<Rightarrow> normalize_loop buf' len (i + 1) (j + 1))
                       else normalize_loop buf len (i + 1) j)
                else normalize_loop buf len (i + 1) j)
             else
               (case wr buf j c of
                  Inl e \<Rightarrow> Inl e
                | Inr buf' \<Rightarrow> normalize_loop buf' len (i + 1) (j + 1)))
      else Inr (buf, j))"
  by pat_completeness auto
termination
  by (relation "measure (\<lambda>(buf, len, i, j). nat (len - i))") auto

text \<open>
  \<open>normalize(buf, len)\<close>: the array after the call and the returned length. The final
  \<^verbatim>\<open>buf[j] = 0;\<close> is a write like any other: when nothing was dropped, \<open>j\<close> is
  \<open>len\<close>.
\<close>

definition normalize :: "byte list \<Rightarrow> int \<Rightarrow> (byte list \<times> int) res" where
  "normalize buf len =
     (case normalize_loop buf len 0 0 of
        Inl e \<Rightarrow> Inl e
      | Inr (buf', j) \<Rightarrow>
          (case wr buf' j 0 of
             Inl e \<Rightarrow> Inl e
           | Inr buf'' \<Rightarrow> Inr (buf'', j)))"

section \<open>bloom.c\<close>

definition H1PRIME :: int where
  "H1PRIME = 4189793"

definition H2PRIME :: int where
  "H2PRIME = 3296731"

definition BLOOM_HASH_NUM :: int where
  "BLOOM_HASH_NUM = 10"

text \<open>
  The conversion of a \<open>long long\<close> to the \<open>int\<close> that \<open>hash_i\<close> returns keeps the low
  32 bits (two's complement).
\<close>

definition to_int32 :: "int \<Rightarrow> int" where
  "to_int32 v = (v + 2 ^ 31) mod 2 ^ 32 - 2 ^ 31"

text \<open>
  \<^verbatim>\<open>return ((x % H1PRIME) + i*(x % H2PRIME) + 1 + i*i);\<close> with \<open>i\<close> an \<open>int\<close> and
  \<open>x\<close> a \<open>long long\<close>: the product \<open>i*i\<close> is computed in \<open>int\<close>, the rest in
  \<open>long long\<close>. The function has two parameters; the size of the bitmap is not one of
  them.
\<close>

definition hash_i :: "int \<Rightarrow> int \<Rightarrow> int res" where
  "hash_i i x =
     (case c_rem x H1PRIME of
        Inl e \<Rightarrow> Inl e
      | Inr a \<Rightarrow>
          (case c_rem x H2PRIME of
             Inl e \<Rightarrow> Inl e
           | Inr b \<Rightarrow>
               (case ll (i * b) of
                  Inl e \<Rightarrow> Inl e
                | Inr p \<Rightarrow>
                    (case ll (a + p) of
                       Inl e \<Rightarrow> Inl e
                     | Inr s1 \<Rightarrow>
                         (case ll (s1 + 1) of
                            Inl e \<Rightarrow> Inl e
                          | Inr s2 \<Rightarrow>
                              (case c32 (i * i) of
                                 Inl e \<Rightarrow> Inl e
                               | Inr ii \<Rightarrow>
                                   (case ll (s2 + ii) of
                                      Inl e \<Rightarrow> Inl e
                                    | Inr s3 \<Rightarrow> Inr (to_int32 s3))))))))"

text \<open>
  Modelled from the spec: the header \<open>bloom.h\<close> with the declaration of the type
  \<open>bloom_filter\<close> is not among the sources. The two fields are the ones \<open>bloom.c\<close>
  uses (\<open>f.buf\<close>, \<open>f.bsz\<close>): the bitmap, a byte array, and its size in bits
  (\<open>bit_count\<close> and \<open>bits\<close> of the spec's BloomFilter).
\<close>

record bloom_filter =
  buf :: "byte list"
  bsz :: int

text \<open>
  \<open>bloom_init\<close> asserts that \<open>bsz\<close> is a multiple of 8 and sets \<open>f.bsz\<close>; it
  allocates nothing, so that the filter it returns has no byte that may be accessed.
\<close>

definition bloom_init :: "int \<Rightarrow> bloom_filter res" where
  "bloom_init n =
     (if n smod 8 = 0 then Inr \<lparr>buf = [], bsz = n\<rparr> else Inl AssertFailed)"

text \<open>
  \<open>bloom_add\<close> has an empty body: the filter after the call is the filter before it.
  \<open>bloom_query\<close> is \<^verbatim>\<open>return 0;\<close>.
\<close>

definition bloom_add :: "bloom_filter \<Rightarrow> int \<Rightarrow> bloom_filter" where
  "bloom_add f elm = f"

definition bloom_query :: "bloom_filter \<Rightarrow> int \<Rightarrow> int" where
  "bloom_query f elm = 0"

section \<open>rkmatch.c: \<open>rabin_karp_batchmatch\<close> and the \<open>switch\<close> of \<open>main\<close>\<close>

text \<open>The body of \<open>rabin_karp_batchmatch\<close> is \<^verbatim>\<open>return 0;\<close>.\<close>

definition rabin_karp_batchmatch ::
  "int \<Rightarrow> int \<Rightarrow> byte list \<Rightarrow> int \<Rightarrow> byte list \<Rightarrow> int \<Rightarrow> int" where
  "rabin_karp_batchmatch bitsz k qs m ts n = 0"

definition EXACT :: int where "EXACT = 0"
definition SIMPLE :: int where "SIMPLE = 1"
definition RK :: int where "RK = 2"
definition RKBATCH :: int where "RKBATCH = 3"

text \<open>
  The loop of \<open>case SIMPLE\<close>, from the state \<open>(i, num_matched)\<close>:
  \<^verbatim>\<open>for (i = 0; (i+k) <= qdoc_len; i += k)
    if (simple_substr_match(qdoc+i, k, doc, doc_len)) num_matched++;\<close>
  Nothing bounds the number of its iterations when \<open>k\<close> is not positive.
\<close>

partial_function (option) simple_chunks ::
  "int \<Rightarrow> byte list \<Rightarrow> int \<Rightarrow> byte list \<Rightarrow> int \<Rightarrow> int \<Rightarrow> int \<Rightarrow> (int res) option" where
  "simple_chunks k qdoc qdoc_len doc doc_len i num_matched =
     (case c32 (i + k) of
        Inl e \<Rightarrow> Some (Inl e)
      | Inr ik \<Rightarrow>
          if ik \<le> qdoc_len then
            (case ptr_add qdoc i of
               Inl e \<Rightarrow> Some (Inl e)
             | Inr ps \<Rightarrow>
                 (case simple_substr_match ps k doc doc_len of
                    Inl e \<Rightarrow> Some (Inl e)
                  | Inr r \<Rightarrow>
                      if r \<noteq> 0 then
                        (case c32 (num_matched + 1) of
                           Inl e \<Rightarrow> Some (Inl e)
                         | Inr num' \<Rightarrow> simple_chunks k qdoc qdoc_len doc doc_len ik num')
                      else simple_chunks k qdoc qdoc_len doc doc_len ik num_matched))
          else Some (Inr num_matched))"

text \<open>
  The loop of \<open>case RK\<close>, the same with \<open>rabin_karp_match\<close>, from the state
  \<open>(i, num_matched)\<close> and the output so far.
\<close>

partial_function (option) rk_chunks ::
  "int \<Rightarrow> int \<Rightarrow> byte list \<Rightarrow> int \<Rightarrow> byte list \<Rightarrow> int \<Rightarrow> int \<Rightarrow> int \<Rightarrow> out list \<Rightarrow>
   ((int \<times> out list) res) option" where
  "rk_chunks q k qdoc qdoc_len doc doc_len i num_matched os =
     (case c32 (i + k) of
        Inl e \<Rightarrow> Some (Inl e)
      | Inr ik \<Rightarrow>
          if ik \<le> qdoc_len then
            (case ptr_add qdoc i of
               Inl e \<Rightarrow> Some (Inl e)
             | Inr ps \<Rightarrow>
                 (case rabin_karp_match q ps k doc doc_len of
                    None \<Rightarrow> None
                  | Some (Inl e) \<Rightarrow> Some (Inl e)
                  | Some (Inr (r, os')) \<Rightarrow>
                      if r \<noteq> 0 then
                        (case c32 (num_matched + 1) of
                           Inl e \<Rightarrow> Some (Inl e)
                         | Inr num' \<Rightarrow>
                             rk_chunks q k qdoc qdoc_len doc doc_len ik num' (os @ os'))
                      else rk_chunks q k qdoc qdoc_len doc doc_len ik num_matched (os @ os')))
          else Some (Inr (num_matched, os)))"

text \<open>
  The bitmap size \<^verbatim>\<open>((qdoc_len*10/k)>>3)<<3\<close>, in \<open>int\<close>: the right shift of a
  negative value is arithmetic, the left shift of one is undefined.
\<close>

definition bitmap_size :: "int \<Rightarrow> int \<Rightarrow> int res" where
  "bitmap_size qdoc_len k =
     (case c32 (qdoc_len * 10) of
        Inl e \<Rightarrow> Inl e
      | Inr t \<Rightarrow>
          (case c_div32 t k of
             Inl e \<Rightarrow> Inl e
           | Inr d \<Rightarrow>
               if d div 8 < 0 then Inl BadShift
               else (case c32 (d div 8 * 8) of
                       Inl e \<Rightarrow> Inl BadShift
                     | Inr b \<Rightarrow> Inr b)))"

text \<open>
  The statistics line of the cases \<open>SIMPLE\<close>, \<open>RK\<close> and \<open>RKBATCH\<close>; its second number
  is \<^verbatim>\<open>qdoc_len/k\<close>.
\<close>

definition stats_line :: "int \<Rightarrow> int \<Rightarrow> int \<Rightarrow> out res" where
  "stats_line num_matched qdoc_len k =
     (case c_div32 qdoc_len k of
        Inl e \<Rightarrow> Inl e
      | Inr chunks \<Rightarrow> Inr (Stats num_matched chunks))"

text \<open>
  The \<open>switch (which_algo)\<close> of \<open>main\<close> and what follows it, with the values the earlier
  part of \<open>main\<close> has set: the modulus \<open>q\<close> (option \<open>-q\<close>), \<open>which_algo\<close> (option
  \<open>-t\<close>), \<open>k\<close> (option \<open>-k\<close>; \<open>atoi\<close> gives any \<open>int\<close>), and the two normalized
  documents with their lengths. The result is the output and the exit status: 0 from
  \<^verbatim>\<open>return 0;\<close>, 1 from \<^verbatim>\<open>exit(1);\<close> in the \<open>default\<close> case, the only one that
  reports an error.
\<close>

definition main_switch ::
  "int \<Rightarrow> int \<Rightarrow> int \<Rightarrow> byte list \<Rightarrow> int \<Rightarrow> byte list \<Rightarrow> int \<Rightarrow> ((out list \<times> int) res) option" where
  "main_switch q which_algo k qdoc qdoc_len doc doc_len =
     (if which_algo = EXACT then
        (case exact_match qdoc qdoc_len doc doc_len of
           Inl e \<Rightarrow> Some (Inl e)
         | Inr r \<Rightarrow> Some (Inr ([if r \<noteq> 0 then ExactMatch else NotExactMatch], 0)))
      else if which_algo = SIMPLE then
        (case simple_chunks k qdoc qdoc_len doc doc_len 0 0 of
           None \<Rightarrow> None
         | Some (Inl e) \<Rightarrow> Some (Inl e)
         | Some (Inr num_matched) \<Rightarrow>
             (case stats_line num_matched qdoc_len k of
                Inl e \<Rightarrow> Some (Inl e)
              | Inr l \<Rightarrow> Some (Inr ([l], 0))))
      else if which_algo = RK then
        (case rk_chunks q k qdoc qdoc_len doc doc_len 0 0 [] of
           None \<Rightarrow> None
         | Some (Inl e) \<Rightarrow> Some (Inl e)
         | Some (Inr (num_matched, os)) \<Rightarrow>
             (case stats_line num_matched qdoc_len k of
                Inl e \<Rightarrow> Some (Inl e)
              | Inr l \<Rightarrow> Some (Inr (os @ [l], 0))))
      else if which_algo = RKBATCH then
        (case bitmap_size qdoc_len k of
           Inl e \<Rightarrow> Some (Inl e)
         | Inr bitsz \<Rightarrow>
             (case stats_line (rabin_karp_batchmatch bitsz k qdoc qdoc_len doc doc_len)
                     qdoc_len k of
                Inl e \<Rightarrow> Some (Inl e)
              | Inr l \<Rightarrow> Some (Inr ([l], 0))))
      else Some (Inr ([], 1)))"

section \<open>Evaluation setup\<close>

text \<open>
  The recursive equations are unfolded by hand in the proofs below, and the partial
  functions are given their equations as code.
\<close>

declare base_exp_loop.simps [simp del]
declare hash_loop.simps [simp del]
declare verify_loop.simps [simp del]
declare scan_loop.simps [simp del]
declare simple_inner.simps [simp del]
declare simple_outer.simps [simp del]
declare exact_loop.simps [simp del]
declare normalize_loop.simps [simp del]
declare keep_positive.simps [code]
declare simple_chunks.simps [code]
declare rk_chunks.simps [code]

section \<open>The hash after a number of rolling updates\<close>

text \<open>
  \<open>rolled q k ts p\<close> is the hash of the spec's hash-consistency property: the window
  hash is initialized at position 0 of \<open>ts\<close> and then rolled \<open>p\<close> times, each time
  with the outgoing byte \<open>ts[i]\<close> and the incoming byte \<open>ts[i + k]\<close>, as the scanning
  loop does in its \<open>else\<close> branch; \<open>base_exp\<close> comes from the loop of
  \<open>rabin_karp_match\<close>.
\<close>

fun rolled :: "int \<Rightarrow> int \<Rightarrow> byte list \<Rightarrow> nat \<Rightarrow> (int res) option" where
  "rolled q k ts 0 = Some (hash_window q ts k)"
| "rolled q k ts (Suc p) =
     (case rolled q k ts p of
        None \<Rightarrow> None
      | Some (Inl e) \<Rightarrow> Some (Inl e)
      | Some (Inr h) \<Rightarrow>
          (case base_exp_loop q (k - 1) 0 1 of
             Inl e \<Rightarrow> Some (Inl e)
           | Inr base_exp \<Rightarrow>
               (case rd ts (int p) of
                  Inl e \<Rightarrow> Some (Inl e)
                | Inr x \<Rightarrow>
                    (case rd ts (int p + k) of
                       Inl e \<Rightarrow> Some (Inl e)
                     | Inr y \<Rightarrow> roll q base_exp h x y))))"

text \<open>
  The values the hash functions take when nothing overflows: one step of Horner's
  method as \<open>madd\<close> and \<open>mmul\<close> compute it, and the polynomial itself.
\<close>

definition red :: "int \<Rightarrow> int \<Rightarrow> int" where
  "red q s = (if s > q then s - q else s)"

definition hstep :: "int \<Rightarrow> int \<Rightarrow> byte \<Rightarrow> int" where
  "hstep q h c = red q ((256 * h) mod q + uint c)"

definition pv :: "int \<Rightarrow> byte list \<Rightarrow> int" where
  "pv a bs = foldl (\<lambda>a c. a * 256 + uint c) a bs"

text \<open>
  \<open>occurs_at ps k ts i\<close>: the first \<open>k\<close> bytes of \<open>ps\<close> are the \<open>k\<close> bytes of
  \<open>ts\<close> that start at index \<open>i\<close>.
\<close>

definition occurs_at :: "byte list \<Rightarrow> int \<Rightarrow> byte list \<Rightarrow> int \<Rightarrow> bool" where
  "occurs_at ps k ts i = (take (nat k) (drop (nat i) ts) = take (nat k) ps)"

section \<open>Arithmetic inside the ranges\<close>

lemma ll_in: "- (2 ^ 63) \<le> x \<Longrightarrow> x < 2 ^ 63 \<Longrightarrow> ll x = Inr x"
  by (simp add: ll_def)

lemma byte_range: "0 \<le> uint (c :: byte) \<and> uint c < 256"
  using uint_lt2p [of c] by simp

lemma mmul_val:
  assumes "0 < q" "0 \<le> a" "0 \<le> b" "a * b < 2 ^ 63"
  shows "mmul q a b = Inr ((a * b) mod q)"
proof -
  have nn: "0 \<le> a * b" using assms by simp
  have "ll (a * b) = Inr (a * b)" by (rule ll_in) (use nn assms in linarith)+
  moreover have "(a * b) smod q = (a * b) mod q"
    using nn assms(1) by (simp add: smod_int_alt_def sgn_if)
  ultimately show ?thesis using assms(1) nn by (simp add: mmul_def c_rem_def)
qed

lemma madd_val:
  assumes "0 \<le> a" "a < q" "0 \<le> b" "b < 256" "q * 256 < 2 ^ 63"
  shows "madd q a b = Inr (red q (a + b))"
  using assms by (simp add: madd_def ll_def red_def)

lemma mdel_val:
  assumes "0 \<le> a" "a < 2 ^ 62" "0 \<le> b" "b < q" "q * 256 < 2 ^ 63"
  shows "mdel q a b = Inr (if a > b then a - b else a + q - b)"
  using assms by (simp add: mdel_def ll_def)

lemma keep_positive_nonneg: "0 \<le> h \<Longrightarrow> keep_positive q h = Some (Inr h)"
  by (subst keep_positive.simps) simp

lemma red_bounds:
  assumes "0 < q" "0 \<le> m" "m < q" "0 \<le> b" "b < 256"
  shows "0 \<le> red q (m + b) \<and> red q (m + b) \<le> max q 254"
  using assms by (auto simp: red_def)

lemma red_mod: "red q s mod q = s mod q"
  by (simp add: red_def)

lemma hstep_bounds:
  assumes "0 < q"
  shows "0 \<le> hstep q h c \<and> hstep q h c \<le> max q 254"
  unfolding hstep_def
  using red_bounds [OF assms, of "(256 * h) mod q" "uint c"] byte_range [of c] assms
  by simp

lemma hstep_mod: "hstep q h c mod q = (h * 256 + uint c) mod q"
  unfolding hstep_def red_mod
  by (simp add: mod_add_left_eq mult.commute)

lemma c32_in: "- 2147483648 \<le> x \<Longrightarrow> x < 2147483648 \<Longrightarrow> c32 x = Inr x"
  by (simp add: c32_def)

lemma ll_lit: "- 9223372036854775808 \<le> x \<Longrightarrow> x < 9223372036854775808 \<Longrightarrow> ll x = Inr x"
  by (simp add: ll_def)

lemma c_rem_nonneg:
  assumes "0 \<le> a" "0 < b"
  shows "c_rem a b = Inr (a mod b)"
  using assms by (simp add: c_rem_def smod_int_alt_def sgn_if)

lemma to_int32_id: "- 2147483648 \<le> v \<Longrightarrow> v < 2147483648 \<Longrightarrow> to_int32 v = v"
  by (simp add: to_int32_def)

section \<open>Hash consistency\<close>

text \<open>
  Without overflow the hash loop is a fold of \<open>hstep\<close> over the window, and such a
  fold is congruent to the polynomial \<open>pv\<close> modulo \<open>q\<close>.
\<close>

lemma pv_split: "pv a bs = a * 256 ^ length bs + pv 0 bs"
proof (induction bs arbitrary: a)
  case Nil
  show ?case by (simp add: pv_def)
next
  case (Cons c bs)
  have "pv a (c # bs) = pv (a * 256 + uint c) bs" by (simp add: pv_def)
  also have "\<dots> = (a * 256 + uint c) * 256 ^ length bs + pv 0 bs" by (rule Cons.IH)
  finally have l: "pv a (c # bs) = (a * 256 + uint c) * 256 ^ length bs + pv 0 bs" .
  have "pv 0 (c # bs) = pv (uint c) bs" by (simp add: pv_def)
  also have "\<dots> = uint c * 256 ^ length bs + pv 0 bs" by (rule Cons.IH)
  finally have r: "pv 0 (c # bs) = uint c * 256 ^ length bs + pv 0 bs" .
  show ?case unfolding l r by (simp add: algebra_simps)
qed

lemma pv_mod_cong: "a mod q = b mod q \<Longrightarrow> pv a bs mod q = pv b bs mod q"
proof -
  assume h: "a mod q = b mod q"
  have "(a * 256 ^ length bs + pv 0 bs) mod q = (b * 256 ^ length bs + pv 0 bs) mod q"
    by (rule mod_add_cong [OF mod_mult_cong [OF h refl] refl])
  then show ?thesis using pv_split [of a bs] pv_split [of b bs] by simp
qed

lemma hfold_mod: "foldl (hstep q) h bs mod q = pv h bs mod q"
proof (induction bs arbitrary: h)
  case Nil
  show ?case by (simp add: pv_def)
next
  case (Cons c bs)
  have "foldl (hstep q) h (c # bs) mod q = foldl (hstep q) (hstep q h c) bs mod q" by simp
  also have "\<dots> = pv (hstep q h c) bs mod q" by (rule Cons.IH)
  also have "\<dots> = pv (h * 256 + uint c) bs mod q" by (rule pv_mod_cong) (rule hstep_mod)
  also have "\<dots> = pv h (c # bs) mod q" by (simp add: pv_def)
  finally show ?case .
qed

lemma hfold_bounds:
  assumes "0 < q"
  shows "0 \<le> h \<Longrightarrow> h \<le> max q 254 \<Longrightarrow>
         0 \<le> foldl (hstep q) h bs \<and> foldl (hstep q) h bs \<le> max q 254"
proof (induction bs arbitrary: h)
  case Nil
  then show ?case by simp
next
  case (Cons c bs)
  show ?case using Cons.IH [of "hstep q h c"] hstep_bounds [OF assms, of h c] by simp
qed

lemma take_drop_step:
  assumes "0 \<le> i" "i < k" "k \<le> int (length s)"
  shows "take (nat (k - i)) (drop (nat i) s) =
         s ! nat i # take (nat (k - (i + 1))) (drop (nat (i + 1)) s)"
proof -
  have a: "nat i < length s" using assms by linarith
  have b: "nat (k - i) = Suc (nat (k - (i + 1)))" using assms by linarith
  have c: "nat (i + 1) = Suc (nat i)" using assms by linarith
  show ?thesis unfolding b c using a by (simp add: Cons_nth_drop_Suc [symmetric])
qed

lemma hash_loop_val:
  "0 < q \<Longrightarrow> q * 256 < 2 ^ 63 \<Longrightarrow> 0 \<le> h \<Longrightarrow> h \<le> max q 254 \<Longrightarrow> 0 \<le> i \<Longrightarrow>
   k \<le> int (length s) \<Longrightarrow>
   hash_loop q s k i h = Inr (foldl (hstep q) h (take (nat (k - i)) (drop (nat i) s)))"
proof (induction q s k i h rule: hash_loop.induct)
  case (1 q s k i h)
  show ?case
  proof (cases "i < k")
    case False
    then show ?thesis by (subst hash_loop.simps) simp
  next
    case True
    have m: "mmul q base h = Inr ((256 * h) mod q)"
      unfolding base_def by (rule mmul_val) (use "1.prems" in auto)
    have r: "rd s i = Inr (s ! nat i)" using True "1.prems" by (simp add: rd_def)
    have mq: "0 \<le> (256 * h) mod q \<and> (256 * h) mod q < q" using "1.prems" by simp
    have a: "madd q ((256 * h) mod q) (uint (s ! nat i)) = Inr (hstep q h (s ! nat i))"
      unfolding hstep_def
      by (rule madd_val) (use mq "1.prems" byte_range [of "s ! nat i"] in auto)
    have hb: "0 \<le> hstep q h (s ! nat i) \<and> hstep q h (s ! nat i) \<le> max q 254"
      by (rule hstep_bounds) (use "1.prems" in auto)
    have ih: "hash_loop q s k (i + 1) (hstep q h (s ! nat i)) =
              Inr (foldl (hstep q) (hstep q h (s ! nat i))
                     (take (nat (k - (i + 1))) (drop (nat (i + 1)) s)))"
      by (rule "1.IH" [OF True m r a]) (use hb "1.prems" in auto)
    have "hash_loop q s k i h = hash_loop q s k (i + 1) (hstep q h (s ! nat i))"
      by (subst hash_loop.simps) (simp add: True m r a)
    then show ?thesis
      unfolding ih take_drop_step [OF "1.prems"(5) True "1.prems"(6)] by simp
  qed
qed


lemma base_exp_loop_val:
  "0 < q \<Longrightarrow> q * 256 < 2 ^ 63 \<Longrightarrow> 0 \<le> b \<Longrightarrow> b \<le> q \<Longrightarrow>
   \<exists>e. base_exp_loop q km1 i b = Inr e \<and> 0 \<le> e \<and> e \<le> q \<and>
       e mod q = (b * 256 ^ nat (km1 - i)) mod q"
proof (induction q km1 i b rule: base_exp_loop.induct)
  case (1 q km1 i b)
  show ?case
  proof (cases "i < km1")
    case False
    then show ?thesis using "1.prems" by (subst base_exp_loop.simps) simp
  next
    case True
    have m: "mmul q base b = Inr ((256 * b) mod q)"
      unfolding base_def by (rule mmul_val) (use "1.prems" in auto)
    have mq: "0 \<le> (256 * b) mod q \<and> (256 * b) mod q \<le> q"
      using "1.prems"(1) pos_mod_bound [of q "256 * b"] pos_mod_sign [of q "256 * b"]
      by linarith
    obtain e where e: "base_exp_loop q km1 (i + 1) ((256 * b) mod q) = Inr e"
        "0 \<le> e" "e \<le> q"
        "e mod q = ((256 * b) mod q * 256 ^ nat (km1 - (i + 1))) mod q"
      using "1.IH" [OF True m "1.prems"(1,2)] mq by blast
    have n: "nat (km1 - i) = Suc (nat (km1 - (i + 1)))" using True by linarith
    have "((256 * b) mod q * 256 ^ nat (km1 - (i + 1))) mod q =
          (256 * b * 256 ^ nat (km1 - (i + 1))) mod q"
      by (rule mod_mult_cong) simp_all
    also have "\<dots> = (b * 256 ^ nat (km1 - i)) mod q"
      unfolding n by (simp add: mult_ac)
    finally have c: "e mod q = (b * 256 ^ nat (km1 - i)) mod q" using e(4) by simp
    have "base_exp_loop q km1 i b = base_exp_loop q km1 (i + 1) ((256 * b) mod q)"
      by (subst base_exp_loop.simps) (simp add: True m)
    then show ?thesis using e(1,2,3) c by simp
  qed
qed

lemma roll_val:
  assumes q: "0 < q" "q * 256 < 2 ^ 63"
    and be: "0 \<le> be" "be \<le> q" "be mod q = 256 ^ length w mod q"
  shows "roll q be (foldl (hstep q) 0 (x # w)) x y = Some (Inr (foldl (hstep q) 0 (w @ [y])))"
proof -
  define H where "H = foldl (hstep q) 0 (x # w)"
  define F where "F = foldl (hstep q) 0 w"
  define t where "t = (uint x * be) mod q"
  define d where "d = (if H > t then H - t else H + q - t)"
  have Hb: "0 \<le> H \<and> H \<le> max q 254"
    unfolding H_def by (rule hfold_bounds) (use q in auto)
  have xb: "0 \<le> uint x \<and> uint x < 256" by (rule byte_range)
  have "uint x * be \<le> 256 * q"
    by (rule mult_mono) (use xb be in auto)
  then have xbe: "uint x * be < 2 ^ 63" using q by linarith
  have t: "mmul q (uint x) be = Inr t"
    unfolding t_def by (rule mmul_val) (use q xb be xbe in auto)
  have tb: "0 \<le> t \<and> t < q" unfolding t_def using q by simp
  have dl: "mdel q H t = Inr d"
    unfolding d_def by (rule mdel_val) (use q Hb tb in auto)
  have db: "0 \<le> d \<and> d \<le> max q 254" unfolding d_def using Hb tb by auto
  have m: "mmul q base d = Inr ((256 * d) mod q)"
    unfolding base_def by (rule mmul_val) (use q db in auto)
  have rr: "roll_remove q be H x = Inr ((256 * d) mod q)"
    by (simp add: roll_remove_def t dl m)
  have mb: "0 \<le> (256 * d) mod q \<and> (256 * d) mod q < q" using q by simp
  have ad: "madd q ((256 * d) mod q) (uint y) = Inr (red q ((256 * d) mod q + uint y))"
    by (rule madd_val) (use q mb byte_range [of y] in auto)
  have "0 \<le> red q ((256 * d) mod q + uint y)"
    using red_bounds [of q "(256 * d) mod q" "uint y"] q mb byte_range [of y] by simp
  then have ra: "roll_add q ((256 * d) mod q) y = Some (Inr (red q ((256 * d) mod q + uint y)))"
    by (simp add: roll_add_def ad keep_positive_nonneg)
  have Hm: "H mod q = (uint x * 256 ^ length w + pv 0 w) mod q"
  proof -
    have "pv 0 (x # w) = pv (uint x) w" by (simp add: pv_def)
    then show ?thesis unfolding H_def hfold_mod using pv_split [of "uint x" w] by simp
  qed
  have tm: "t mod q = (uint x * 256 ^ length w) mod q"
    unfolding t_def mod_mod_trivial by (rule mod_mult_cong [OF refl be(3)])
  have "(H - t + q) mod q = (H - t) mod q" by simp
  moreover have "H + q - t = H - t + q" by simp
  ultimately have "d mod q = (H - t) mod q" unfolding d_def by presburger
  also have "\<dots> = (uint x * 256 ^ length w + pv 0 w - uint x * 256 ^ length w) mod q"
    by (rule mod_diff_cong [OF Hm tm])
  also have "\<dots> = F mod q" unfolding F_def hfold_mod by simp
  finally have "(256 * F) mod q = (256 * d) mod q"
    by (intro mod_mult_cong [OF refl]) simp
  then have "foldl (hstep q) 0 (w @ [y]) = red q ((256 * d) mod q + uint y)"
    by (simp add: F_def hstep_def)
  then show ?thesis
    unfolding roll_def H_def [symmetric] by (simp add: rr ra)
qed

lemma hash_window_val:
  assumes "0 < q" "q * 256 < 2 ^ 63" "k \<le> int (length s)"
  shows "hash_window q s k = Inr (foldl (hstep q) 0 (take (nat k) s))"
  using hash_loop_val [of q 0 0 k s] assms by (simp add: hash_window_def)

lemma window_roll:
  assumes q: "0 < q" "q * 256 < 2 ^ 63" and k: "0 < k"
    and be: "0 \<le> be" "be \<le> q" "be mod q = 256 ^ nat (k - 1) mod q"
    and i: "0 \<le> i" "i + k < int (length ts)"
  shows "roll q be (foldl (hstep q) 0 (take (nat k) (drop (nat i) ts)))
           (ts ! nat i) (ts ! nat (i + k)) =
         Some (Inr (foldl (hstep q) 0 (take (nat k) (drop (nat (i + 1)) ts))))"
proof -
  define w where "w = take (nat (k - 1)) (drop (Suc (nat i)) ts)"
  have lw: "length w = nat (k - 1)" unfolding w_def using i k by simp
  have bem: "be mod q = 256 ^ length w mod q" using be(3) lw by simp
  have pl: "nat i < length ts" using i k by linarith
  have nk: "nat k = Suc (nat (k - 1))" using k by linarith
  have si: "nat (i + 1) = Suc (nat i)" using i by linarith
  have w1: "take (nat k) (drop (nat i) ts) = ts ! nat i # w"
    unfolding w_def nk using pl by (simp add: Cons_nth_drop_Suc [symmetric])
  have il: "nat (k - 1) < length (drop (Suc (nat i)) ts)" using i k by simp
  have "drop (Suc (nat i)) ts ! nat (k - 1) = ts ! (Suc (nat i) + nat (k - 1))"
    by (rule nth_drop) (use i k in linarith)
  moreover have "Suc (nat i) + nat (k - 1) = nat (i + k)" using i k by linarith
  ultimately have w2: "take (nat k) (drop (nat (i + 1)) ts) = w @ [ts ! nat (i + k)]"
    unfolding w_def nk si using take_Suc_conv_app_nth [OF il] by simp
  show ?thesis
    unfolding w1 w2 by (rule roll_val [OF q be(1,2) bem])
qed

lemma roll_split:
  "roll q be h x y = Some (Inr v) \<Longrightarrow>
   \<exists>h1. roll_remove q be h x = Inr h1 \<and> roll_add q h1 y = Some (Inr v)"
  by (auto simp: roll_def split: sum.splits)

lemma rolled_val:
  assumes q: "0 < q" "q * 256 < 2 ^ 63" and k: "0 < k"
  shows "int p + k \<le> int (length ts) \<Longrightarrow>
         rolled q k ts p = Some (Inr (foldl (hstep q) 0 (take (nat k) (drop p ts))))"
proof (induction p)
  case 0
  then show ?case using hash_window_val [OF q, of k ts] by simp
next
  case (Suc p)
  have ih: "rolled q k ts p = Some (Inr (foldl (hstep q) 0 (take (nat k) (drop p ts))))"
    by (rule Suc.IH) (use Suc.prems in linarith)
  obtain be where be: "base_exp_loop q (k - 1) 0 1 = Inr be" "0 \<le> be" "be \<le> q"
      "be mod q = (1 * 256 ^ nat (k - 1 - 0)) mod q"
    using base_exp_loop_val [of q 1 "k - 1" 0] q by auto
  have bem: "be mod q = 256 ^ nat (k - 1) mod q" using be(4) by simp
  have i: "0 \<le> int p" "int p + k < int (length ts)" using Suc.prems by simp_all
  have r1: "rd ts (int p) = Inr (ts ! p)" using i k by (simp add: rd_def)
  have r2: "rd ts (int p + k) = Inr (ts ! nat (int p + k))" using i k by (simp add: rd_def)
  have s: "nat (int p + 1) = Suc p" by simp
  show ?case
    using window_roll [OF q k be(2,3) bem i] unfolding s
    by (simp add: ih be(1) r1 r2)
qed

text \<open>
  Claim C1 (hash consistency). For a modulus \<open>q\<close> with \<open>0 < q\<close> and
  \<open>q * 256 < 2 ^ 63\<close> (the bound the source states for \<open>BIG_PRIME\<close>), every chunk size
  \<open>k > 0\<close> and every window position \<open>p\<close> of a buffer \<open>ts\<close> (\<open>p + k \<le> length ts\<close>):
  initializing the window hash at position 0 and applying the rolling update \<open>p\<close>
  times returns a hash, without any fault, and it is the hash that the initial loop
  computes from scratch on the window at position \<open>p\<close>.
\<close>

theorem hash_consistency:
  assumes "0 < q" "q * 256 < 2 ^ 63" "0 < k" "int p + k \<le> int (length ts)"
  shows "\<exists>h. rolled q k ts p = Some (Inr h) \<and> hash_window q (drop p ts) k = Inr h"
proof -
  have "k \<le> int (length (drop p ts))" using assms(4) by simp
  then have "hash_window q (drop p ts) k = Inr (foldl (hstep q) 0 (take (nat k) (drop p ts)))"
    by (rule hash_window_val [OF assms(1,2)])
  then show ?thesis using rolled_val [OF assms] by simp
qed

text \<open>
  Witness for C1: the modulus \<open>BIG_PRIME\<close>, \<open>k = 2\<close>, the buffer \<open>abcd\<close> and the last
  window position 2, where both hashes are \<open>99 * 256 + 100\<close>.
\<close>

theorem hash_consistency_witness:
  "0 < BIG_PRIME \<and> BIG_PRIME * 256 < 2 ^ 63 \<and> (0::int) < 2 \<and>
   int 2 + 2 \<le> int (length (bytes_of ''abcd'')) \<and>
   rolled BIG_PRIME 2 (bytes_of ''abcd'') 2 = Some (Inr 25444) \<and>
   hash_window BIG_PRIME (drop 2 (bytes_of ''abcd'')) 2 = Inr 25444"
proof -
  have a: "0 < BIG_PRIME" "BIG_PRIME * 256 < 2 ^ 63" by (simp_all add: BIG_PRIME_def)
  have b: "(0::int) < 2" "int 2 + 2 \<le> int (length (bytes_of ''abcd''))"
    by (simp_all add: bytes_of_def)
  have e: "hash_window BIG_PRIME (drop 2 (bytes_of ''abcd'')) 2 = Inr 25444"
    by (simp add: hash_window_def hash_loop.simps bytes_of_def BIG_PRIME_def mmul_def
        madd_def ll_def c_rem_def rd_def base_def smod_int_alt_def)
  obtain h where h: "rolled BIG_PRIME 2 (bytes_of ''abcd'') 2 = Some (Inr h)"
      "hash_window BIG_PRIME (drop 2 (bytes_of ''abcd'')) 2 = Inr h"
    using hash_consistency [OF a b] by blast
  from h e have "h = 25444" by simp
  with h e a b show ?thesis by simp
qed

section \<open>The concrete hash of scenario A\<close>

text \<open>
  Claim C9 (concrete scenario A). With base 256 and the modulus 5003943032159437, the
  hash that the initial loop computes for \<open>k = 4\<close> over the four bytes \<open>aaaa\<close> is
  \<open>(97*256^3 + 97*256^2 + 97*256 + 97) mod 5003943032159437\<close>.
\<close>

theorem hash_window_aaaa:
  "hash_window 5003943032159437 (bytes_of ''aaaa'') 4 =
     Inr ((97 * 256 ^ 3 + 97 * 256 ^ 2 + 97 * 256 + 97) mod 5003943032159437) \<and>
   BIG_PRIME = 5003943032159437 \<and> base = 256"
  by (simp add: hash_window_def hash_loop.simps bytes_of_def BIG_PRIME_def mmul_def madd_def
      ll_def c_rem_def rd_def base_def smod_int_alt_def)

section \<open>The modular helpers at the boundary\<close>

text \<open>
  Inside \<open>[0, q)\<close> the two helpers compute the modular sum and difference except at
  one point each, where the result is \<open>q\<close>.
\<close>

lemma madd_in_range:
  assumes "0 \<le> a" "a < q" "0 \<le> b" "b < q" "q < 2 ^ 62"
  shows "madd q a b = Inr (if a + b = q then q else (a + b) mod q)"
proof (cases "a + b \<le> q")
  case True
  have "a + b < q \<Longrightarrow> (a + b) mod q = a + b" using assms by simp
  then show ?thesis using True assms by (auto simp: madd_def ll_def)
next
  case False
  have "(a + b - q) mod q = a + b - q"
    by (rule mod_pos_pos_trivial) (use False assms in linarith)+
  moreover have "(a + b - q) mod q = (a + b) mod q" by simp
  ultimately have "(a + b) mod q = a + b - q" by simp
  then show ?thesis using False assms by (simp add: madd_def ll_def)
qed

lemma mdel_in_range:
  assumes "0 \<le> a" "a < q" "0 \<le> b" "b < q" "q < 2 ^ 62"
  shows "mdel q a b = Inr (if a = b then q else (a - b) mod q)"
proof (cases "a > b")
  case True
  have "(a - b) mod q = a - b" using True assms by simp
  then show ?thesis using True assms by (simp add: mdel_def ll_def)
next
  case False
  have "a < b \<Longrightarrow> (a - b + q) mod q = a - b + q"
    by (rule mod_pos_pos_trivial) (use assms in linarith)+
  moreover have "(a - b + q) mod q = (a - b) mod q" by simp
  ultimately have "a < b \<Longrightarrow> (a - b) mod q = a + q - b" by simp
  then show ?thesis using False assms by (auto simp: mdel_def ll_def)
qed

text \<open>
  Claim C4 (postconditions of \<open>madd\<close> and \<open>mdel\<close>) at the inputs where the code
  departs from it. \<open>madd\<close> compares with \<open>>\<close>: for \<open>a + b\<close> equal to the modulus it
  returns the modulus, not 0. \<open>mdel\<close> compares with \<open>>\<close> as well: for \<open>a = b\<close> it
  adds the modulus back and returns the modulus, not 0. Both results lie outside
  \<open>[0, modulus)\<close>.
\<close>

theorem madd_mdel_return_modulus:
  "madd BIG_PRIME 1 (BIG_PRIME - 1) = Inr BIG_PRIME \<and> (1 + (BIG_PRIME - 1)) mod BIG_PRIME = 0 \<and>
   mdel BIG_PRIME 5 5 = Inr BIG_PRIME \<and> (5 - 5) mod BIG_PRIME = 0"
  by (simp add: madd_def mdel_def ll_def BIG_PRIME_def)

section \<open>The single-chunk matcher at the last window\<close>

text \<open>
  What the scanning loop computes. Once the two hashes are equal the hash is no longer
  rolled, and every later position is compared byte by byte; before that the hash is
  the hash of the current window. For a valid modulus the function returns 1 exactly
  when the chunk occurs at a position below \<open>n - k\<close>.
\<close>

lemma verify_loop_val:
  "0 \<le> i \<Longrightarrow> i + k \<le> int (length ts) \<Longrightarrow> k \<le> int (length ps) \<Longrightarrow> 0 \<le> j \<Longrightarrow> j \<le> k \<Longrightarrow>
   i + k < 2147483648 \<Longrightarrow>
   \<exists>r. verify_loop ps k ts i j = Inr r \<and>
       (r = k \<longleftrightarrow> (\<forall>l. j \<le> l \<and> l < k \<longrightarrow> ts ! nat (i + l) = ps ! nat l))"
proof (induction ps k ts i j rule: verify_loop.induct)
  case (1 ps k ts i j)
  show ?case
  proof (cases "j < k")
    case False
    then have jk: "j = k" using "1.prems" by simp
    have "verify_loop ps k ts i j = Inr j" by (subst verify_loop.simps) (simp add: False)
    then show ?thesis using jk by auto
  next
    case True
    have c: "c32 (i + j) = Inr (i + j)" by (rule c32_in) (use True "1.prems" in linarith)+
    have a: "rd ts (i + j) = Inr (ts ! nat (i + j))" using True "1.prems" by (simp add: rd_def)
    have b: "rd ps j = Inr (ps ! nat j)" using True "1.prems" by (simp add: rd_def)
    show ?thesis
    proof (cases "ts ! nat (i + j) = ps ! nat j")
      case False
      have "verify_loop ps k ts i j = Inr j"
        by (subst verify_loop.simps) (simp add: True c a b False)
      moreover have "\<not> (\<forall>l. j \<le> l \<and> l < k \<longrightarrow> ts ! nat (i + l) = ps ! nat l)"
        using False True by auto
      ultimately show ?thesis using True by simp
    next
      case eq: True
      obtain r where r: "verify_loop ps k ts i (j + 1) = Inr r"
          "r = k \<longleftrightarrow> (\<forall>l. j + 1 \<le> l \<and> l < k \<longrightarrow> ts ! nat (i + l) = ps ! nat l)"
        using "1.IH" [OF True c a b] eq True "1.prems" by auto
      have "verify_loop ps k ts i j = verify_loop ps k ts i (j + 1)"
        by (subst verify_loop.simps) (simp add: True c a b eq)
      moreover have "(\<forall>l. j \<le> l \<and> l < k \<longrightarrow> ts ! nat (i + l) = ps ! nat l) \<longleftrightarrow>
                     (\<forall>l. j + 1 \<le> l \<and> l < k \<longrightarrow> ts ! nat (i + l) = ps ! nat l)"
      proof
        assume "\<forall>l. j \<le> l \<and> l < k \<longrightarrow> ts ! nat (i + l) = ps ! nat l"
        then show "\<forall>l. j + 1 \<le> l \<and> l < k \<longrightarrow> ts ! nat (i + l) = ps ! nat l" by simp
      next
        assume h: "\<forall>l. j + 1 \<le> l \<and> l < k \<longrightarrow> ts ! nat (i + l) = ps ! nat l"
        show "\<forall>l. j \<le> l \<and> l < k \<longrightarrow> ts ! nat (i + l) = ps ! nat l"
        proof (intro allI impI)
          fix l assume l: "j \<le> l \<and> l < k"
          show "ts ! nat (i + l) = ps ! nat l"
          proof (cases "l = j")
            case True then show ?thesis using eq by simp
          next
            case False then show ?thesis using h l by simp
          qed
        qed
      qed
      ultimately show ?thesis using r by simp
    qed
  qed
qed

lemma occurs_at_nth:
  assumes "0 \<le> i" "0 \<le> k" "i + k \<le> int (length ts)" "k \<le> int (length ps)"
  shows "occurs_at ps k ts i \<longleftrightarrow> (\<forall>l. 0 \<le> l \<and> l < k \<longrightarrow> ts ! nat (i + l) = ps ! nat l)"
proof -
  have l1: "length (take (nat k) (drop (nat i) ts)) = nat k" using assms by simp
  have l2: "length (take (nat k) ps) = nat k" using assms by simp
  have "occurs_at ps k ts i \<longleftrightarrow>
        (\<forall>m < nat k. take (nat k) (drop (nat i) ts) ! m = take (nat k) ps ! m)"
    unfolding occurs_at_def using l1 l2 by (auto simp: list_eq_iff_nth_eq)
  also have "\<dots> \<longleftrightarrow> (\<forall>m < nat k. ts ! (nat i + m) = ps ! m)"
    using assms by simp
  also have "\<dots> \<longleftrightarrow> (\<forall>l. 0 \<le> l \<and> l < k \<longrightarrow> ts ! nat (i + l) = ps ! nat l)"
  proof
    assume h: "\<forall>m < nat k. ts ! (nat i + m) = ps ! m"
    show "\<forall>l. 0 \<le> l \<and> l < k \<longrightarrow> ts ! nat (i + l) = ps ! nat l"
    proof (intro allI impI)
      fix l assume l: "0 \<le> l \<and> l < k"
      then have "nat l < nat k" by simp
      then have "ts ! (nat i + nat l) = ps ! nat l" using h by blast
      moreover have "nat i + nat l = nat (i + l)" using l assms(1) by (simp add: nat_add_distrib)
      ultimately show "ts ! nat (i + l) = ps ! nat l" by simp
    qed
  next
    assume h: "\<forall>l. 0 \<le> l \<and> l < k \<longrightarrow> ts ! nat (i + l) = ps ! nat l"
    show "\<forall>m < nat k. ts ! (nat i + m) = ps ! m"
    proof (intro allI impI)
      fix m assume m: "m < nat k"
      then have "ts ! nat (i + int m) = ps ! nat (int m)" using h by simp
      moreover have "nat (i + int m) = nat i + m" using assms(1) by (simp add: nat_add_distrib)
      ultimately show "ts ! (nat i + m) = ps ! m" by simp
    qed
  qed
  finally show ?thesis .
qed

lemma scan_loop_val:
  assumes q: "0 < q" "q * 256 < 2 ^ 63" and k: "0 < k" "k \<le> int (length ps)"
    and be: "0 \<le> be" "be \<le> q" "be mod q = 256 ^ nat (k - 1) mod q"
    and nk: "nk + k \<le> int (length ts)" "nk + k < 2147483648"
    and ph: "ph = foldl (hstep q) 0 (take (nat k) ps)"
  shows "0 \<le> i \<Longrightarrow>
         th = foldl (hstep q) 0 (take (nat k) (drop (nat i) ts)) \<or> th = ph \<Longrightarrow>
         \<exists>os'. scan_loop q ps k ts nk be ph i printed th response os =
           Some (Inr (if \<exists>p. i \<le> p \<and> p < nk \<and> occurs_at ps k ts p then 1 else response, os'))"
proof (induction "nat (nk - i)" arbitrary: i printed th response os)
  case 0
  then have "\<not> i < nk" by simp
  then have "scan_loop q ps k ts nk be ph i printed th response os = Some (Inr (response, os))"
    by (subst scan_loop.simps) simp
  moreover have "\<not> (\<exists>p. i \<le> p \<and> p < nk \<and> occurs_at ps k ts p)" using \<open>\<not> i < nk\<close> by auto
  ultimately show ?case by (simp only: if_False) blast
next
  case (Suc m)
  then have lt: "i < nk" by linarith
  have m: "m = nat (nk - (i + 1))" using Suc.hyps(2) by linarith
  obtain printed' os1 where pr: "print_hash printed th os = (printed', os1)"
    by (cases "print_hash printed th os")
  have oc: "occurs_at ps k ts i \<longleftrightarrow> (\<forall>l. 0 \<le> l \<and> l < k \<longrightarrow> ts ! nat (i + l) = ps ! nat l)"
    by (rule occurs_at_nth) (use Suc.prems lt k nk in auto)
  have ex: "(\<exists>p. i \<le> p \<and> p < nk \<and> occurs_at ps k ts p) \<longleftrightarrow>
            occurs_at ps k ts i \<or> (\<exists>p. i + 1 \<le> p \<and> p < nk \<and> occurs_at ps k ts p)"
  proof
    assume "\<exists>p. i \<le> p \<and> p < nk \<and> occurs_at ps k ts p"
    then obtain p where p: "i \<le> p" "p < nk" "occurs_at ps k ts p" by blast
    show "occurs_at ps k ts i \<or> (\<exists>p. i + 1 \<le> p \<and> p < nk \<and> occurs_at ps k ts p)"
    proof (cases "p = i")
      case True then show ?thesis using p by simp
    next
      case False then have "i + 1 \<le> p" using p by simp
      then show ?thesis using p by blast
    qed
  next
    assume "occurs_at ps k ts i \<or> (\<exists>p. i + 1 \<le> p \<and> p < nk \<and> occurs_at ps k ts p)"
    then show "\<exists>p. i \<le> p \<and> p < nk \<and> occurs_at ps k ts p"
    proof
      assume "occurs_at ps k ts i" then show ?thesis using lt by blast
    next
      assume "\<exists>p. i + 1 \<le> p \<and> p < nk \<and> occurs_at ps k ts p"
      then obtain p where "i + 1 \<le> p" "p < nk" "occurs_at ps k ts p" by blast
      then have "i \<le> p \<and> p < nk \<and> occurs_at ps k ts p" by simp
      then show ?thesis by blast
    qed
  qed
  show ?case
  proof (cases "th = ph")
    case True
    obtain r where r: "verify_loop ps k ts i 0 = Inr r"
        "r = k \<longleftrightarrow> (\<forall>l. 0 \<le> l \<and> l < k \<longrightarrow> ts ! nat (i + l) = ps ! nat l)"
      using verify_loop_val [of i k ts ps 0] Suc.prems lt k nk by auto
    have rk: "r = k \<longleftrightarrow> occurs_at ps k ts i" using r(2) oc by simp
    have pr': "print_hash printed ph os = (printed', os1)" using pr True by simp
    have step: "scan_loop q ps k ts nk be ph i printed th response os =
                scan_loop q ps k ts nk be ph (i + 1) printed' th (if r = k then 1 else response) os1"
      by (subst scan_loop.simps) (simp add: lt pr' True r(1))
    obtain os' where "scan_loop q ps k ts nk be ph (i + 1) printed' th
          (if r = k then 1 else response) os1 =
        Some (Inr (if \<exists>p. i + 1 \<le> p \<and> p < nk \<and> occurs_at ps k ts p then 1
                   else (if r = k then 1 else response), os'))"
      using Suc.hyps(1) [OF m, of th printed' "if r = k then 1 else response" os1]
        Suc.prems(1) True by auto
    then show ?thesis unfolding step ex rk by auto
  next
    case False
    then have th: "th = foldl (hstep q) 0 (take (nat k) (drop (nat i) ts))"
      using Suc.prems(2) by simp
    have no: "\<not> occurs_at ps k ts i"
    proof
      assume "occurs_at ps k ts i"
      then have "th = ph" unfolding th ph occurs_at_def by simp
      then show False using False by simp
    qed
    have ik: "i + k < int (length ts)" using lt nk by linarith
    have rl: "roll q be th (ts ! nat i) (ts ! nat (i + k)) =
              Some (Inr (foldl (hstep q) 0 (take (nat k) (drop (nat (i + 1)) ts))))"
      unfolding th by (rule window_roll [OF q k(1) be Suc.prems(1) ik])
    obtain h1 where h1: "roll_remove q be th (ts ! nat i) = Inr h1"
        "roll_add q h1 (ts ! nat (i + k)) =
         Some (Inr (foldl (hstep q) 0 (take (nat k) (drop (nat (i + 1)) ts))))"
      using roll_split [OF rl] by blast
    have r1: "rd ts i = Inr (ts ! nat i)" using Suc.prems(1) ik k by (simp add: rd_def)
    have c: "c32 (i + k) = Inr (i + k)"
      by (rule c32_in) (use Suc.prems(1) k lt nk in linarith)+
    have r2: "rd ts (i + k) = Inr (ts ! nat (i + k))"
      using Suc.prems(1) ik k by (simp add: rd_def)
    have step: "scan_loop q ps k ts nk be ph i printed th response os =
                scan_loop q ps k ts nk be ph (i + 1) printed'
                  (foldl (hstep q) 0 (take (nat k) (drop (nat (i + 1)) ts))) response os1"
      by (subst scan_loop.simps) (simp add: lt pr False r1 h1 c r2)
    obtain os' where "scan_loop q ps k ts nk be ph (i + 1) printed'
          (foldl (hstep q) 0 (take (nat k) (drop (nat (i + 1)) ts))) response os1 =
        Some (Inr (if \<exists>p. i + 1 \<le> p \<and> p < nk \<and> occurs_at ps k ts p then 1 else response, os'))"
      using Suc.hyps(1) [OF m, of _ printed' response os1] Suc.prems(1) by auto
    then show ?thesis unfolding step ex using no by auto
  qed
qed

lemma rabin_karp_match_scans_below_last:
  assumes "0 < q" "q * 256 < 2 ^ 63" "0 < k" "k \<le> n" "k \<le> int (length ps)"
    "n \<le> int (length ts)" "n < 2147483648"
  shows "\<exists>os. rabin_karp_match q ps k ts n =
           Some (Inr (if \<exists>p. 0 \<le> p \<and> p < n - k \<and> occurs_at ps k ts p then 1 else 0, os))"
proof -
  have c1: "c32 (k - 1) = Inr (k - 1)" by (rule c32_in) (use assms in linarith)+
  obtain be where be: "base_exp_loop q (k - 1) 0 1 = Inr be" "0 \<le> be" "be \<le> q"
      "be mod q = (1 * 256 ^ nat (k - 1 - 0)) mod q"
    using base_exp_loop_val [of q 1 "k - 1" 0] assms(1,2) by auto
  have bem: "be mod q = 256 ^ nat (k - 1) mod q" using be(4) by simp
  have hp: "hash_window q ps k = Inr (foldl (hstep q) 0 (take (nat k) ps))"
    by (rule hash_window_val) (use assms in auto)
  have ht: "hash_window q ts k = Inr (foldl (hstep q) 0 (take (nat k) (drop (nat 0) ts)))"
    using hash_window_val [of q k ts] assms by simp
  have c2: "c32 (n - k) = Inr (n - k)" by (rule c32_in) (use assms in linarith)+
  have n1: "n - k + k \<le> int (length ts)" "n - k + k < 2147483648" using assms by simp_all
  obtain os where "scan_loop q ps k ts (n - k) be (foldl (hstep q) 0 (take (nat k) ps)) 0 0
        (foldl (hstep q) 0 (take (nat k) (drop (nat 0) ts))) 0
        [PsHash (llu (foldl (hstep q) 0 (take (nat k) ps)))] =
      Some (Inr (if \<exists>p. 0 \<le> p \<and> p < n - k \<and> occurs_at ps k ts p then 1 else 0, os))"
    using scan_loop_val [OF assms(1,2,3,5) be(2,3) bem n1 refl, of 0 _ 0 0] by blast
  then show ?thesis
    by (simp add: rabin_karp_match_def c1 be(1) hp ht c2)
qed

text \<open>
  Claim C2 (correctness of \<open>rabin_karp_match\<close>) at an input where the code departs
  from it. The scanning loop runs for \<open>i < n - k\<close>, so that the window at position
  \<open>n - k\<close> is never compared: the chunk \<open>b\<close> occurs in \<open>ab\<close> at position 1, and the
  function returns 0 after printing the hash of \<open>b\<close> and the hash of the window \<open>a\<close>.
\<close>

theorem rabin_karp_match_misses_last_window:
  "rabin_karp_match BIG_PRIME (bytes_of ''b'') 1 (bytes_of ''ab'') 2 =
     Some (Inr (0, [PsHash 98, TsHash 97]))"
  by (simp add: rabin_karp_match_def scan_loop.simps base_exp_loop.simps hash_loop.simps
      roll_remove_def roll_add_def keep_positive.simps print_hash_def PRINT_RK_HASH_def
      llu_def c32_def hash_window_def bytes_of_def BIG_PRIME_def mmul_def madd_def mdel_def
      ll_def c_rem_def rd_def base_def smod_int_alt_def)

section \<open>The Bloom filter\<close>

text \<open>
  Claim C3 (no false negatives) on the code: \<open>bloom_add\<close> changes nothing and
  \<open>bloom_query\<close> returns 0, so the query for a key that was just added is false, for
  every filter and every key.
\<close>

theorem bloom_query_after_add: "bloom_query (bloom_add f x) x = 0"
  by (simp add: bloom_query_def)

text \<open>
  Claim C5 (derived bit index) fails as stated: \<open>hash_i\<close> does not reduce its value
  modulo the bitmap size. For \<open>i = 0\<close> and the key 8 it returns 9, where the claim's
  formula gives 1 for a bitmap of 8 bits, and 9 is no index into 8 bits.
\<close>

theorem hash_i_not_reduced:
  "hash_i 0 8 = Inr 9 \<and> (8 mod H1PRIME + 0 * (8 mod H2PRIME) + 1 + 0 * 0) mod 8 = 1"
  by (simp add: hash_i_def c_rem_def ll_def c32_def to_int32_def H1PRIME_def H2PRIME_def
      smod_int_alt_def)

text \<open>
  Claim C5 as amended. For every \<open>i\<close> in \<open>[0, 10)\<close> and every non-negative key \<open>x\<close>
  (a \<open>long long\<close>), \<open>hash_i(i, x)\<close> is
  \<open>(x mod 4189793) + i * (x mod 3296731) + 1 + i * i\<close>, not reduced modulo the bitmap
  size, which \<open>hash_i\<close> does not receive; the value lies between 1 and 33860444.
\<close>

theorem hash_i_value:
  assumes "0 \<le> i" "i < BLOOM_HASH_NUM" "0 \<le> x" "x < 2 ^ 63"
  shows "hash_i i x = Inr (x mod H1PRIME + i * (x mod H2PRIME) + 1 + i * i) \<and>
         1 \<le> x mod H1PRIME + i * (x mod H2PRIME) + 1 + i * i \<and>
         x mod H1PRIME + i * (x mod H2PRIME) + 1 + i * i \<le> 33860444"
proof -
  define a where "a = x mod H1PRIME"
  define b where "b = x mod H2PRIME"
  have ab: "0 \<le> a" "a \<le> 4189792" "0 \<le> b" "b \<le> 3296730"
    unfolding a_def b_def H1PRIME_def H2PRIME_def
    using pos_mod_bound [of 4189793 x] pos_mod_bound [of 3296731 x] by simp_all
  have i9: "i \<le> 9" using assms(2) by (simp add: BLOOM_HASH_NUM_def)
  have p: "0 \<le> i * b" "i * b \<le> 9 * 3296730"
    using assms(1) ab(3) mult_mono [OF i9 ab(4), of] by simp_all
  have ii: "0 \<le> i * i" "i * i \<le> 9 * 9"
    using assms(1) mult_mono [OF i9 i9] by simp_all
  have ra: "c_rem x H1PRIME = Inr a"
    unfolding a_def by (rule c_rem_nonneg) (use assms in \<open>simp_all add: H1PRIME_def\<close>)
  have rb: "c_rem x H2PRIME = Inr b"
    unfolding b_def by (rule c_rem_nonneg) (use assms in \<open>simp_all add: H2PRIME_def\<close>)
  have l1: "ll (i * b) = Inr (i * b)" by (rule ll_lit) (use p in linarith)+
  have l2: "ll (a + i * b) = Inr (a + i * b)" by (rule ll_lit) (use ab p in linarith)+
  have l3: "ll (a + i * b + 1) = Inr (a + i * b + 1)" by (rule ll_lit) (use ab p in linarith)+
  have l4: "c32 (i * i) = Inr (i * i)" by (rule c32_in) (use ii in linarith)+
  have l5: "ll (a + i * b + 1 + i * i) = Inr (a + i * b + 1 + i * i)"
    by (rule ll_lit) (use ab p ii in linarith)+
  have l6: "to_int32 (a + i * b + 1 + i * i) = a + i * b + 1 + i * i"
    by (rule to_int32_id) (use ab p ii in linarith)+
  have "hash_i i x = Inr (a + i * b + 1 + i * i)"
    by (simp add: hash_i_def ra rb l1 l2 l3 l4 l5 l6)
  then show ?thesis
    unfolding a_def [symmetric] b_def [symmetric] using ab p ii by linarith
qed

text \<open>Witness for the amended C5: \<open>i = 3\<close> and the key 1000000007.\<close>

theorem hash_i_value_witness:
  "(0::int) \<le> 3 \<and> 3 < BLOOM_HASH_NUM \<and> (0::int) \<le> 1000000007 \<and> (1000000007::int) < 2 ^ 63 \<and>
   hash_i 3 1000000007 = Inr 6100825"
  using hash_i_value [of 3 1000000007]
  by (simp add: BLOOM_HASH_NUM_def H1PRIME_def H2PRIME_def)

section \<open>The normalizer\<close>

text \<open>
  Claim C6 (normalizer) at an input where the code departs from it. A white-space
  character is dropped at the last index only: of two trailing spaces the first is
  kept. For the three bytes \<open>a\<close>, space, space the call returns the length 2 and the
  string is \<open>a\<close> followed by a space.
\<close>

theorem normalize_keeps_trailing_space:
  "normalize (bytes_of ''a  '') 3 = Inr (bytes_of ''a '' @ [0], 2)"
  by (simp add: normalize_def normalize_loop.simps bytes_of_def rd_def wr_def isupper_def
      isspace_def tolower_def)

section \<open>The exact matcher\<close>

text \<open>
  On buffers without a zero byte, each followed by its terminator, \<open>exact_match\<close>
  decides equality.
\<close>

lemma exact_loop_val:
  assumes z: "0 \<notin> set qs" and l: "length ts = length qs" "int (length qs) < 2147483647"
  shows "i \<le> length qs \<Longrightarrow>
         exact_loop (qs @ [0]) (ts @ [0]) (int i) = Inr (if drop i qs = drop i ts then 1 else 0)"
proof (induction "length qs - i" arbitrary: i)
  case 0
  then have i: "i = length qs" by simp
  have "rd (qs @ [0]) (int i) = Inr 0" using i by (simp add: rd_def nth_append)
  then show ?case using i l by (subst exact_loop.simps) simp
next
  case (Suc m)
  then have lt: "i < length qs" by simp
  have nz: "qs ! i \<noteq> 0" using z lt nth_mem by metis
  have r1: "rd (qs @ [0]) (int i) = Inr (qs ! i)" using lt by (simp add: rd_def nth_append)
  have r2: "rd (ts @ [0]) (int i) = Inr (ts ! i)" using lt l by (simp add: rd_def nth_append)
  have d1: "drop i qs = qs ! i # drop (Suc i) qs" using lt by (simp add: Cons_nth_drop_Suc)
  have d2: "drop i ts = ts ! i # drop (Suc i) ts" using lt l by (simp add: Cons_nth_drop_Suc)
  show ?case
  proof (cases "qs ! i = ts ! i")
    case False
    then show ?thesis unfolding d1 d2 by (subst exact_loop.simps) (simp add: r1 r2 nz)
  next
    case True
    have nz': "ts ! i \<noteq> 0" using nz True by simp
    have c: "c32 (int i + 1) = Inr (int i + 1)"
      by (rule c32_in) (use lt l in linarith)+
    have "exact_loop (qs @ [0]) (ts @ [0]) (int (Suc i)) =
              Inr (if drop (Suc i) qs = drop (Suc i) ts then 1 else 0)"
      by (rule Suc.hyps(1)) (use Suc.hyps(2) lt in auto)
    then have ih: "exact_loop (qs @ [0]) (ts @ [0]) (int i + 1) =
              Inr (if drop (Suc i) qs = drop (Suc i) ts then 1 else 0)"
      by (simp add: add.commute)
    have "exact_loop (qs @ [0]) (ts @ [0]) (int i) = exact_loop (qs @ [0]) (ts @ [0]) (int i + 1)"
      by (subst exact_loop.simps) (simp add: r1 r2 nz' True c)
    then show ?thesis unfolding ih d1 d2 using True by simp
  qed
qed

lemma exact_match_without_zero_bytes:
  assumes "0 \<notin> set qs" "int (length qs) < 2147483647"
  shows "exact_match (qs @ [0]) (int (length qs)) (ts @ [0]) (int (length ts)) =
         Inr (if qs = ts then 1 else 0)"
proof (cases "length ts = length qs")
  case False
  then show ?thesis by (auto simp: exact_match_def)
next
  case True
  then show ?thesis
    using exact_loop_val [OF assms(1) True assms(2), of 0] by (simp add: exact_match_def)
qed

text \<open>
  Claim C7 (exact match) at an input where the code departs from it. The comparison
  loop stops at the first zero byte of \<open>qs\<close>: the two buffers below have length 2,
  begin with a zero byte and differ in their second byte (each is followed by the
  terminator that \<open>normalize\<close> writes), and \<open>exact_match\<close> returns 1.
\<close>

theorem exact_match_stops_at_zero_byte:
  "exact_match [0, 97, 0] 2 [0, 98, 0] 2 = Inr 1"
  by (simp add: exact_match_def exact_loop.simps rd_def)

section \<open>The chunk size in \<open>main\<close>\<close>

lemma sdiv_small: "0 \<le> a \<Longrightarrow> a < b \<Longrightarrow> a sdiv b = (0::int)"
  by (simp add: signed_divide_int_def)

lemma sdiv_nonneg_bounds:
  assumes "0 \<le> a" "0 < b"
  shows "0 \<le> a sdiv b \<and> a sdiv b \<le> (a::int)"
proof -
  have "a sdiv b = a div b" using assms by (simp add: signed_divide_int_def sgn_if)
  moreover have "0 \<le> a div b" using assms by (simp add: pos_imp_zdiv_nonneg_iff)
  moreover have "a div b \<le> a div 1" by (rule zdiv_mono2) (use assms in auto)
  ultimately show ?thesis by simp
qed

lemma stats_line_large_k:
  assumes "0 \<le> qdoc_len" "qdoc_len < k"
  shows "stats_line 0 qdoc_len k = Inr (Stats 0 0)"
  using assms by (simp add: stats_line_def c_div32_def sdiv_small)

lemma simple_chunks_large_k:
  assumes "0 \<le> qdoc_len" "qdoc_len < k" "k < 2 ^ 31"
  shows "simple_chunks k qdoc qdoc_len doc doc_len 0 0 = Some (Inr 0)"
  using assms by (subst simple_chunks.simps) (simp add: c32_def)

lemma rk_chunks_large_k:
  assumes "0 \<le> qdoc_len" "qdoc_len < k" "k < 2 ^ 31"
  shows "rk_chunks q k qdoc qdoc_len doc doc_len 0 0 [] = Some (Inr (0, []))"
  using assms by (subst rk_chunks.simps) (simp add: c32_def)

lemma bitmap_size_large_k:
  assumes "0 \<le> qdoc_len" "qdoc_len < k" "qdoc_len * 10 < 2 ^ 31"
  shows "\<exists>b. bitmap_size qdoc_len k = Inr b"
proof -
  define d where "d = (qdoc_len * 10) sdiv k"
  have d: "0 \<le> d \<and> d \<le> qdoc_len * 10"
    unfolding d_def by (rule sdiv_nonneg_bounds) (use assms in auto)
  have t: "c32 (qdoc_len * 10) = Inr (qdoc_len * 10)" using assms by (simp add: c32_def)
  have dv: "c_div32 (qdoc_len * 10) k = Inr d"
    using assms by (simp add: c_div32_def d_def)
  have "0 \<le> d div 8" using d by (simp add: pos_imp_zdiv_nonneg_iff)
  moreover have "d div 8 * 8 \<le> d" by simp
  ultimately have "c32 (d div 8 * 8) = Inr (d div 8 * 8) \<and> \<not> d div 8 < 0"
    using d assms(3) by (simp add: c32_def)
  then show ?thesis by (simp add: bitmap_size_def t dv)
qed

text \<open>
  Claim C8 (invalid chunk size rejected) fails as stated: \<open>main\<close> never checks \<open>k\<close>.
  With \<open>k = 5\<close> and two documents of 2 bytes, algorithm 1 ends with exit status 0 and
  prints the statistics line with 0 chunks out of 0; no error is reported.
\<close>

theorem main_switch_no_config_error:
  "main_switch BIG_PRIME SIMPLE 5 (bytes_of ''ab'') 2 (bytes_of ''ab'') 2 =
     Some (Inr ([Stats 0 0], 0))"
  by (simp add: main_switch_def simple_chunks.simps c32_def stats_line_def c_div32_def
      EXACT_def SIMPLE_def signed_divide_int_def)

text \<open>
  Claim C8 as amended. For a chunk size \<open>k\<close> greater than the length of the query
  document, algorithms 1, 2 and 3 report no error: no chunk is compared, the only
  output is the statistics line with 0 matched chunks out of 0, and the exit status is
  0. (\<open>k\<close> and \<open>qdoc_len * 10\<close> are in the range of \<open>int\<close>.)
\<close>

theorem main_switch_large_k:
  assumes "which_algo = SIMPLE \<or> which_algo = RK \<or> which_algo = RKBATCH"
    and "0 \<le> qdoc_len" "qdoc_len < k" "k < 2 ^ 31" "qdoc_len * 10 < 2 ^ 31"
  shows "main_switch q which_algo k qdoc qdoc_len doc doc_len = Some (Inr ([Stats 0 0], 0))"
proof -
  have s: "stats_line 0 qdoc_len k = Inr (Stats 0 0)"
    by (rule stats_line_large_k) fact+
  have c1: "simple_chunks k qdoc qdoc_len doc doc_len 0 0 = Some (Inr 0)"
    by (rule simple_chunks_large_k) fact+
  have c2: "rk_chunks q k qdoc qdoc_len doc doc_len 0 0 [] = Some (Inr (0, []))"
    by (rule rk_chunks_large_k) fact+
  obtain b where c3: "bitmap_size qdoc_len k = Inr b"
    using bitmap_size_large_k [OF assms(2,3,5)] by blast
  from assms(1) show ?thesis
    by (auto simp: main_switch_def EXACT_def SIMPLE_def RK_def RKBATCH_def s c1 c2 c3
        rabin_karp_batchmatch_def)
qed

text \<open>Witness for the amended C8: algorithm 3 with \<open>k = 5\<close> and documents of 2 bytes.\<close>

theorem main_switch_large_k_witness:
  "(RKBATCH = SIMPLE \<or> RKBATCH = RK \<or> RKBATCH = RKBATCH) \<and> (0::int) \<le> 2 \<and> (2::int) < 5 \<and>
   (5::int) < 2 ^ 31 \<and> (2::int) * 10 < 2 ^ 31 \<and>
   main_switch BIG_PRIME RKBATCH 5 (bytes_of ''ab'') 2 (bytes_of ''ab'') 2 =
     Some (Inr ([Stats 0 0], 0))"
  using main_switch_large_k [of RKBATCH 2 5 BIG_PRIME "bytes_of ''ab''" "bytes_of ''ab''"]
  by simp

section \<open>The naive substring matcher\<close>

text \<open>
  Claim C10 (reads of \<open>simple_substr_match\<close> stay below \<open>n\<close>) at an input where the
  code departs from it. The outer loop runs for every \<open>i < n\<close>, not only up to
  \<open>n - k\<close>: for the chunk \<open>ab\<close> and the document \<open>ca\<close> (\<open>k = n = 2\<close>) the first byte
  matches at \<open>i = 1\<close> and the next read is \<open>ts[2]\<close>.
\<close>

theorem simple_substr_match_reads_past_end:
  "simple_substr_match (bytes_of ''ab'') 2 (bytes_of ''ca'') 2 = Inl OutOfBounds"
  by (simp add: simple_substr_match_def simple_outer.simps simple_inner.simps bytes_of_def
      rd_def c32_def)

end
